theory Spec2Isabelle
  imports Main "HOL-Library.Sublist" "HOL-Library.Multiset"
begin

section \<open>Python strings\<close>

text \<open>
  A Python \<open>str\<close> is a sequence of Unicode code points. The answer cleaner of
  \<open>app.py\<close> names code points beyond Latin-1 (the bullets U+2022, U+25CF, U+25E6 and
  U+2043), so a string is modelled as the list of its code points.
\<close>

type_synonym ustring = "nat list"

definition ustr :: "string \<Rightarrow> ustring" where
  \<comment> \<open>An ASCII literal of the source as a code point list.\<close>
  "ustr s = map of_char s"

definition is_space :: "nat \<Rightarrow> bool" where
  \<comment> \<open>\<open>str.isspace\<close> on one code point; the same set is \<open>\s\<close> of \<open>re\<close> on \<open>str\<close>
      patterns and what \<open>str.strip()\<close> removes.\<close>
  "is_space c \<longleftrightarrow>
     (9 \<le> c \<and> c \<le> 13) \<or> (28 \<le> c \<and> c \<le> 32) \<or> c = 133 \<or> c = 160 \<or> c = 5760 \<or>
     (8192 \<le> c \<and> c \<le> 8202) \<or> c = 8232 \<or> c = 8233 \<or> c = 8239 \<or> c = 8287 \<or> c = 12288"

definition is_linebreak :: "nat \<Rightarrow> bool" where
  \<comment> \<open>The line boundaries of \<open>str.splitlines\<close>: LF, CR, VT, FF, FS, GS, RS, NEL, LS, PS.\<close>
  "is_linebreak c \<longleftrightarrow>
     c = 10 \<or> c = 13 \<or> c = 11 \<or> c = 12 \<or> c = 28 \<or> c = 29 \<or> c = 30 \<or> c = 133 \<or>
     c = 8232 \<or> c = 8233"

definition is_bullet :: "nat \<Rightarrow> bool" where
  \<comment> \<open>The character class of the bullet pattern: hyphen, asterisk, U+2022 (written
      twice in the source, once literally and once escaped), U+25CF, U+25E6, U+2043.\<close>
  "is_bullet c \<longleftrightarrow> c = 45 \<or> c = 42 \<or> c = 8226 \<or> c = 9679 \<or> c = 9702 \<or> c = 8259"

definition lstrip :: "ustring \<Rightarrow> ustring" where
  "lstrip s = dropWhile is_space s"

definition rstrip :: "ustring \<Rightarrow> ustring" where
  "rstrip s = rev (dropWhile is_space (rev s))"

definition strip :: "ustring \<Rightarrow> ustring" where
  \<comment> \<open>\<open>s.strip()\<close>\<close>
  "strip s = rstrip (lstrip s)"

fun split_char :: "nat \<Rightarrow> ustring \<Rightarrow> ustring list" where
  \<comment> \<open>\<open>s.split(c)\<close> for a separator of one character\<close>
  "split_char c [] = [[]]"
| "split_char c (x # xs) =
     (if x = c then [] # split_char c xs
      else (case split_char c xs of
              [] \<Rightarrow> [[x]]
            | p # ps \<Rightarrow> (x # p) # ps))"

function replace_str :: "ustring \<Rightarrow> ustring \<Rightarrow> ustring \<Rightarrow> ustring" where
  \<comment> \<open>\<open>s.replace(old, new)\<close> for a non-empty \<open>old\<close>: the occurrences are taken from
      the left and do not overlap.\<close>
  "replace_str old new [] = []"
| "replace_str old new (c # cs) =
     (if old \<noteq> [] \<and> prefix old (c # cs)
      then new @ replace_str old new (drop (length old) (c # cs))
      else c # replace_str old new cs)"
  by pat_completeness auto
termination
  by (relation "measure (\<lambda>(old, new, s). length s)") auto

fun join_lines :: "ustring list \<Rightarrow> ustring" where
  \<comment> \<open>\<open>"\n".join(lines)\<close>\<close>
  "join_lines [] = []"
| "join_lines [l] = l"
| "join_lines (l # ls) = l @ 10 # join_lines ls"

function splitlines :: "ustring \<Rightarrow> ustring list" where
  \<comment> \<open>\<open>s.splitlines()\<close>: the line breaks are dropped, CR LF is one break, and a
      break at the very end opens no further line.\<close>
  "splitlines [] = []"
| "splitlines (c # cs) =
     (let line = takeWhile (\<lambda>x. \<not> is_linebreak x) (c # cs);
          rest = dropWhile (\<lambda>x. \<not> is_linebreak x) (c # cs)
      in case rest of
           [] \<Rightarrow> [line]
         | b # r \<Rightarrow>
             line # splitlines (if b = 13 \<and> r \<noteq> [] \<and> hd r = 10 then tl r else r))"
  by pat_completeness auto
termination
proof (relation "measure length", goal_cases)
  case 1
  show ?case by simp
next
  case (2 c cs line rest b r)
  have "length rest \<le> length (c # cs)"
    unfolding 2(2) by (rule length_dropWhile_le)
  with 2(3) show ?case by (cases r) auto
qed

section \<open>The answer formatter\<close>

subsection \<open>The substitutions of \<open>clean_markdown\<close>\<close>

fun find_fence :: "ustring \<Rightarrow> ustring option" where
  \<comment> \<open>The text after the first \<open>```\<close> of \<open>s\<close>, if there is one: what the lazy
      \<open>[\s\S]*?```\<close> leaves unread.\<close>
  "find_fence [] = None"
| "find_fence (c # cs) =
     (if prefix [96, 96, 96] (c # cs) then Some (drop 3 (c # cs)) else find_fence cs)"

definition match_fence :: "ustring \<Rightarrow> ustring option" where
  \<comment> \<open>A match of \<open>```[\s\S]*?```\<close> at the start of \<open>s\<close>: the text after the match.\<close>
  "match_fence s = (if prefix [96, 96, 96] s then find_fence (drop 3 s) else None)"

definition match_image :: "ustring \<Rightarrow> (ustring \<times> ustring) option" where
  \<comment> \<open>A match of \<open>!\[([^\]]*)\]\([^\)]*\)\<close> at the start of \<open>s\<close>: group 1 and the
      text after the match. Both starred classes are greedy and are followed by the one
      character they exclude, so each stops at the first \<open>]\<close>, respectively \<open>)\<close>.\<close>
  "match_image s =
     (if prefix [33, 91] s then
        (let r = drop 2 s;
             alt = takeWhile (\<lambda>x. x \<noteq> 93) r;
             r1 = dropWhile (\<lambda>x. x \<noteq> 93) r
         in if prefix [93, 40] r1 then
              (let r2 = dropWhile (\<lambda>x. x \<noteq> 41) (drop 2 r1)
               in if r2 \<noteq> [] then Some (alt, tl r2) else None)
            else None)
      else None)"

definition match_link :: "ustring \<Rightarrow> (ustring \<times> ustring) option" where
  \<comment> \<open>A match of \<open>\[([^\]]+)\]\([^\)]+\)\<close> at the start of \<open>s\<close>: as for images, with
      both classes non-empty.\<close>
  "match_link s =
     (if prefix [91] s then
        (let r = drop 1 s;
             txt = takeWhile (\<lambda>x. x \<noteq> 93) r;
             r1 = dropWhile (\<lambda>x. x \<noteq> 93) r
         in if txt \<noteq> [] \<and> prefix [93, 40] r1 then
              (let url = takeWhile (\<lambda>x. x \<noteq> 41) (drop 2 r1);
                   r2 = dropWhile (\<lambda>x. x \<noteq> 41) (drop 2 r1)
               in if url \<noteq> [] \<and> r2 \<noteq> [] then Some (txt, tl r2) else None)
            else None)
      else None)"

function sub_fences :: "ustring \<Rightarrow> ustring" where
  \<comment> \<open>\<open>re.sub(r"```[\s\S]*?```", "", text)\<close>: matches are sought from the left; after
      a match the scan goes on behind it, otherwise the character is kept.\<close>
  "sub_fences [] = []"
| "sub_fences (c # cs) =
     (case match_fence (c # cs) of
        Some rest \<Rightarrow> sub_fences rest
      | None \<Rightarrow> c # sub_fences cs)"
  by pat_completeness auto
termination
proof (relation "measure length", goal_cases)
  case 1
  show ?case by simp
next
  case (2 c cs)
  show ?case by simp
next
  case (3 c cs rest)
  have ff: "find_fence s = Some r \<Longrightarrow> length r < length s" for s r
    by (induction s) (auto split: if_splits)
  from 3 show ?case
    by (auto simp: match_fence_def split: if_splits dest!: ff)
qed

function sub_images :: "ustring \<Rightarrow> ustring" where
  \<comment> \<open>\<open>re.sub(r"!\[([^\]]*)\]\([^\)]*\)", r"\1", text)\<close>\<close>
  "sub_images [] = []"
| "sub_images (c # cs) =
     (case match_image (c # cs) of
        Some (alt, rest) \<Rightarrow> alt @ sub_images rest
      | None \<Rightarrow> c # sub_images cs)"
  by pat_completeness auto
termination
proof (relation "measure length", goal_cases)
  case 1
  show ?case by simp
next
  case (2 c cs)
  show ?case by simp
next
  case (3 c cs x lbl rest)
  have len: "length r < length s" if m: "match_image s = Some (a, r)" for s a r
  proof -
    define r1 where "r1 = dropWhile (\<lambda>x. x \<noteq> 93) (drop 2 s)"
    define r2 where "r2 = dropWhile (\<lambda>x. x \<noteq> 41) (drop 2 r1)"
    from m have r: "r = tl r2" and ne: "r2 \<noteq> []"
      unfolding match_image_def Let_def r1_def r2_def by (auto split: if_splits)
    have "length r < length r2"
      unfolding r using ne by (cases r2) auto
    also have "\<dots> \<le> length (drop 2 r1)"
      unfolding r2_def by (rule length_dropWhile_le)
    also have "\<dots> \<le> length r1" by simp
    also have "\<dots> \<le> length (drop 2 s)"
      unfolding r1_def by (rule length_dropWhile_le)
    also have "\<dots> \<le> length s" by simp
    finally show ?thesis .
  qed
  from 3 show ?case by (auto dest: len)
qed

function sub_links :: "ustring \<Rightarrow> ustring" where
  \<comment> \<open>\<open>re.sub(r"\[([^\]]+)\]\([^\)]+\)", r"\1", text)\<close>\<close>
  "sub_links [] = []"
| "sub_links (c # cs) =
     (case match_link (c # cs) of
        Some (txt, rest) \<Rightarrow> txt @ sub_links rest
      | None \<Rightarrow> c # sub_links cs)"
  by pat_completeness auto
termination
proof (relation "measure length", goal_cases)
  case 1
  show ?case by simp
next
  case (2 c cs)
  show ?case by simp
next
  case (3 c cs x lbl rest)
  have len: "length r < length s" if m: "match_link s = Some (a, r)" for s a r
  proof -
    define r1 where "r1 = dropWhile (\<lambda>x. x \<noteq> 93) (drop 1 s)"
    define r2 where "r2 = dropWhile (\<lambda>x. x \<noteq> 41) (drop 2 r1)"
    from m have r: "r = tl r2" and ne: "r2 \<noteq> []"
      unfolding match_link_def Let_def r1_def r2_def by (auto split: if_splits)
    have "length r < length r2"
      unfolding r using ne by (cases r2) auto
    also have "\<dots> \<le> length (drop 2 r1)"
      unfolding r2_def by (rule length_dropWhile_le)
    also have "\<dots> \<le> length r1" by simp
    also have "\<dots> \<le> length (drop 1 s)"
      unfolding r1_def by (rule length_dropWhile_le)
    also have "\<dots> \<le> length s" by simp
    finally show ?thesis .
  qed
  from 3 show ?case by (auto dest: len)
qed

definition strip_markers :: "ustring \<Rightarrow> ustring" where
  \<comment> \<open>\<open>text.replace("**", "").replace("__", "").replace("`", "")\<close>, then
      \<open>text.replace("*", "").replace("_", "")\<close>\<close>
  "strip_markers text =
     replace_str [95] [] (replace_str [42] []
       (replace_str [96] [] (replace_str [95, 95] [] (replace_str [42, 42] [] text))))"

definition match_bullet :: "ustring \<Rightarrow> ustring option" where
  \<comment> \<open>A match of \<open>^\s*([\-\*...])\s+\<close> at the start of a line: the text after it.\<close>
  "match_bullet line =
     (case dropWhile is_space line of
        [] \<Rightarrow> None
      | b # r \<Rightarrow>
          if is_bullet b \<and> r \<noteq> [] \<and> is_space (hd r) then Some (dropWhile is_space r)
          else None)"

definition sub_bullet :: "ustring \<Rightarrow> ustring" where
  \<comment> \<open>\<open>re.sub(r"^\s*([\-\*...])\s+", "", line)\<close>: without \<open>re.MULTILINE\<close> the
      anchor holds at the start of the line only, so there is at most one match.\<close>
  "sub_bullet line = (case match_bullet line of Some r \<Rightarrow> r | None \<Rightarrow> line)"

function collapse_newlines :: "ustring \<Rightarrow> ustring" where
  \<comment> \<open>\<open>re.sub(r"\n{3,}", "\n\n", text)\<close>: the greedy match takes the whole run.\<close>
  "collapse_newlines [] = []"
| "collapse_newlines (c # cs) =
     (if prefix [10, 10, 10] (c # cs)
      then 10 # 10 # collapse_newlines (dropWhile (\<lambda>x. x = 10) (c # cs))
      else c # collapse_newlines cs)"
  by pat_completeness auto
termination
proof (relation "measure length", goal_cases)
  case 1
  show ?case by simp
next
  case (2 c cs)
  then show ?case by (auto intro: le_imp_less_Suc length_dropWhile_le)
next
  case (3 c cs)
  show ?case by simp
qed

definition clean_markdown :: "ustring \<Rightarrow> ustring" where
  "clean_markdown md =
     (if md = [] then []
      else
        (let text = md;
             text = sub_fences text;
             text = sub_images text;
             text = sub_links text;
             text = strip_markers text;
             lines = map sub_bullet (splitlines text);
             text = join_lines lines;
             text = strip (collapse_newlines text)
         in text))"

definition make_heading :: "ustring \<Rightarrow> ustring" where
  \<comment> \<open>\<open>question.split('?')[0].strip() or 'Answer'\<close>; \<open>split\<close> never returns an empty
      list, so the index 0 is always there.\<close>
  "make_heading question =
     (let h = strip (case split_char 63 question of [] \<Rightarrow> [] | p # ps \<Rightarrow> p)
      in if h = [] then ustr ''Answer'' else h)"

section \<open>The application\<close>

subsection \<open>Exceptions, JSON values and responses\<close>

datatype exn = Exn ustring
  \<comment> \<open>A raised exception \<open>e\<close>, carrying \<open>str(e)\<close>.\<close>

fun str_of :: "exn \<Rightarrow> ustring" where
  "str_of (Exn m) = m"

datatype jval = JStr ustring | JOther bool
  \<comment> \<open>A value of the request's JSON body: a string, or any other JSON value together
      with its Python truth value.\<close>

fun truthy :: "jval \<Rightarrow> bool" where
  "truthy (JStr s) = (s \<noteq> [])"
| "truthy (JOther t) = t"

record response =
  resp_status :: nat
  resp_json :: "(string \<times> ustring) list"

type_synonym bytes = "nat list"

record user =
  u_id :: nat
  u_name :: ustring

record question_row =
  q_user :: nat
  q_question :: ustring
  q_answer :: ustring
  q_timestamp :: nat

text \<open>
  The row of table \<open>questions\<close>; its \<open>id\<close> column is read by no statement of the
  program and is left out. \<open>timestamp\<close> is SQLite's \<open>CURRENT_TIMESTAMP\<close>, a text
  \<open>YYYY-MM-DD HH:MM:SS\<close> of one second's resolution that sorts as the number of seconds does.
\<close>

subsection \<open>The model client\<close>

record world =
  questions :: "question_row list"
  model_requests :: "ustring list"
  clock :: nat

text \<open>
  \<open>world\<close> is what a request can change or read outside the process: the rows of table
  \<open>questions\<close>, the prompts posted to \<open>MODEL_URL\<close> so far, and the clock.
  \<open>services\<close> is how the outside answers. \<open>post_generate\<close> stands for
  \<open>requests.post\<close>, \<open>raise_for_status\<close>, \<open>response.json()\<close> and the reading of key
  \<open>response\<close>: \<open>Inl e\<close> when one of them raises \<open>e\<close>, \<open>Inr None\<close> when the key is
  absent. \<open>db_fault\<close> is the exception, if any, that \<open>sqlite3\<close> raises on the insert.
\<close>

record services =
  post_generate :: "ustring \<Rightarrow> exn + ustring option"
  db_fault :: "exn option"

definition SENTINEL :: ustring where
  "SENTINEL = ustr ''Sorry, something went wrong with the model.''"

definition insert_question :: "services \<Rightarrow> user option \<Rightarrow> ustring \<Rightarrow> ustring \<Rightarrow> world \<Rightarrow> exn + world" where
  \<comment> \<open>The body of the inner \<open>try\<close>: \<open>current_user\<close> is \<open>None\<close> for a caller without an
      \<open>id\<close> (anonymous).\<close>
  "insert_question sv current_user question answer w =
     (case current_user of
        None \<Rightarrow> Inr w
      | Some u \<Rightarrow>
          (case db_fault sv of
             Some e \<Rightarrow> Inl e
           | None \<Rightarrow>
               Inr (w\<lparr>questions := questions w @
                 [\<lparr>q_user = u_id u, q_question = question, q_answer = answer,
                   q_timestamp = clock w\<rparr>]\<rparr>)))"

definition ask_ollama_try :: "services \<Rightarrow> user option \<Rightarrow> ustring \<Rightarrow> world \<Rightarrow> (exn + ustring) \<times> world" where
  \<comment> \<open>The body of the outer \<open>try\<close> of \<open>QABot.ask_ollama\<close>.\<close>
  "ask_ollama_try sv current_user question w =
     (let w1 = w\<lparr>model_requests := model_requests w @ [question]\<rparr>
      in case post_generate sv question of
           Inl e \<Rightarrow> (Inl e, w1)
         | Inr data \<Rightarrow>
             (let answer = (case data of None \<Rightarrow> ustr ''No response received.'' | Some a \<Rightarrow> a);
                  w2 = (case insert_question sv current_user question answer w1 of
                          Inl db_error \<Rightarrow> w1
                        | Inr w' \<Rightarrow> w')
              in (Inr answer, w2)))"

definition ask_ollama :: "services \<Rightarrow> user option \<Rightarrow> ustring \<Rightarrow> world \<Rightarrow> (exn + ustring) \<times> world" where
  \<comment> \<open>\<open>QABot.ask_ollama\<close>: \<open>Inl\<close> would be an exception raised to the caller.\<close>
  "ask_ollama sv current_user question w =
     (case ask_ollama_try sv current_user question w of
        (Inl e, w') \<Rightarrow> (Inr SENTINEL, w')
      | (Inr answer, w') \<Rightarrow> (Inr answer, w'))"

subsection \<open>Route \<open>/api/ask\<close>\<close>

record ask_json =
  j_question :: "jval option"
  j_lang :: "jval option"

text \<open>
  The JSON object of the request, as far as the handler reads it: the two keys, each
  absent (\<open>None\<close>) or present.
\<close>

definition ask :: "services \<Rightarrow> user option \<Rightarrow> ask_json \<Rightarrow> world \<Rightarrow> (exn + response) \<times> world" where
  "ask sv current_user data w =
     (case (case j_question data of
              None \<Rightarrow> Inr (strip [])
            | Some (JStr s) \<Rightarrow> Inr (strip s)
            | Some (JOther t) \<Rightarrow> Inl (Exn (ustr ''AttributeError'')))
      of
        Inl e \<Rightarrow> (Inl e, w)
      | Inr question \<Rightarrow>
          (let lang = (case j_lang data of None \<Rightarrow> JStr (ustr ''en'') | Some v \<Rightarrow> v)
           in if question = []
              then (Inr \<lparr>resp_status = 400,
                         resp_json = [(''message'', ustr ''No question provided.'')]\<rparr>, w)
              else
                (case ask_ollama sv current_user question w of
                   (Inl e, w') \<Rightarrow> (Inl e, w')
                 | (Inr raw_answer, w') \<Rightarrow>
                     (let heading = make_heading question;
                          body = clean_markdown (strip raw_answer)
                      in (Inr \<lparr>resp_status = 200,
                                resp_json = [(''heading'', heading), (''body'', body)]\<rparr>, w')))))"

definition spec_heading :: "ustring \<Rightarrow> ustring" where
  \<comment> \<open>The heading in the specification's words: the text before the first \<open>?\<close> (all
      of it when there is none), trimmed, or \<open>Answer\<close> when that is empty.\<close>
  "spec_heading q =
     (let h = strip (takeWhile (\<lambda>c. c \<noteq> 63) q)
      in if h = [] then ustr ''Answer'' else h)"

subsection \<open>Route \<open>/api/ocr\<close>\<close>

definition ocr_question ::
  "(bytes \<Rightarrow> exn + 'img) \<Rightarrow> ('img \<Rightarrow> exn + ustring) \<Rightarrow> bytes option \<Rightarrow> exn + response" where
  \<comment> \<open>\<open>image_open\<close> is \<open>PIL.Image.open\<close>, \<open>image_to_string\<close> is
      \<open>pytesseract.image_to_string\<close>; the third argument is \<open>request.files.get('image')\<close>.
      \<open>Inl\<close> is an exception that leaves the handler.\<close>
  "ocr_question image_open image_to_string image_file =
     (case image_file of
        None \<Rightarrow> Inr \<lparr>resp_status = 400, resp_json = [(''error'', ustr ''No image file uploaded.'')]\<rparr>
      | Some f \<Rightarrow>
          (case image_open f of
             Inl e \<Rightarrow> Inl e
           | Inr img \<Rightarrow>
               (case image_to_string img of
                  Inr extracted_text \<Rightarrow>
                    Inr \<lparr>resp_status = 200, resp_json = [(''question'', strip extracted_text)]\<rparr>
                | Inl e \<Rightarrow>
                    Inr \<lparr>resp_status = 500, resp_json = [(''error'', str_of e)]\<rparr>)))"

subsection \<open>Route \<open>/api/tts\<close>\<close>

definition speak :: "(jval \<Rightarrow> ustring \<Rightarrow> exn option) \<Rightarrow> jval \<Rightarrow> jval \<Rightarrow> bool \<times> ustring list" where
  \<comment> \<open>\<open>speak(text, lang)\<close>. \<open>gtts_save\<close> is \<open>gTTS(text=text, lang=tts_lang)\<close>, \<open>tts.save\<close>
      and the playback command: the exception one of them raises, if any. The second
      component is what \<open>logging.error\<close> writes.\<close>
  "speak gtts_save text lang =
     (let tts_lang = (if lang = JStr (ustr ''hi'') then ustr ''hi'' else ustr ''en'')
      in case gtts_save text tts_lang of
           None \<Rightarrow> (True, [])
         | Some e \<Rightarrow> (False, [ustr ''TTS failed: '' @ str_of e]))"

record tts_json =
  j_text :: "jval option"
  j_tts_lang :: "jval option"

definition text_to_speech :: "(jval \<Rightarrow> ustring \<Rightarrow> exn option) \<Rightarrow> tts_json \<Rightarrow> response \<times> ustring list" where
  \<comment> \<open>The answer of the route and the lines logged. A \<open>text\<close> that is not a string cannot
      be echoed in the model's string-valued JSON and is written as the empty string.\<close>
  "text_to_speech gtts_save data =
     (let text = (case j_text data of None \<Rightarrow> JStr [] | Some v \<Rightarrow> v);
          lang = (case j_tts_lang data of None \<Rightarrow> JStr (ustr ''en'') | Some v \<Rightarrow> v)
      in if \<not> truthy text
         then (\<lparr>resp_status = 400, resp_json = [(''error'', ustr ''No text provided'')]\<rparr>, [])
         else
           (case speak gtts_save text lang of
              (True, logged) \<Rightarrow>
                (\<lparr>resp_status = 200,
                  resp_json = [(''status'', ustr ''ok''), (''audio_url'', ustr ''/output.mp3''),
                               (''answer'', (case text of JStr s \<Rightarrow> s | JOther t \<Rightarrow> []))]\<rparr>, logged)
            | (False, logged) \<Rightarrow>
                (\<lparr>resp_status = 500, resp_json = [(''error'', ustr ''TTS failed'')]\<rparr>, logged)))"

subsection \<open>Route \<open>/api/upload_pdf\<close>\<close>

record ('doc, 'idx) pdf_services =
  save_file :: "bytes \<Rightarrow> exn option"
  pdf_load :: "bytes \<Rightarrow> exn + 'doc list"
  split_documents :: "'doc list \<Rightarrow> exn + 'doc list"
  from_documents :: "'doc list \<Rightarrow> exn + 'idx"
  remove_file :: "exn option"

text \<open>
  The library calls of the handler, each with the exception it may raise:
  \<open>pdf_file.save\<close>, \<open>PyPDFLoader(...).load()\<close>, \<open>RecursiveCharacterTextSplitter(...).split_documents\<close>,
  \<open>HuggingFaceEmbeddings(...)\<close> with \<open>FAISS.from_documents\<close>, and \<open>os.remove\<close>.
  \<open>PDF_VECTORSTORES\<close> is a dictionary from user ids to indices.
\<close>

definition upload_pdf_try ::
  "('doc, 'idx) pdf_services \<Rightarrow> nat \<Rightarrow> bytes \<Rightarrow> (nat \<rightharpoonup> 'idx) \<Rightarrow> (exn + response) \<times> (nat \<rightharpoonup> 'idx)" where
  \<comment> \<open>The body of the \<open>try\<close> of \<open>upload_pdf\<close>.\<close>
  "upload_pdf_try sv uid pdf_file PDF_VECTORSTORES =
     (case save_file sv pdf_file of
        Some e \<Rightarrow> (Inl e, PDF_VECTORSTORES)
      | None \<Rightarrow>
     (case pdf_load sv pdf_file of
        Inl e \<Rightarrow> (Inl e, PDF_VECTORSTORES)
      | Inr documents \<Rightarrow>
     if documents = []
     then (Inr \<lparr>resp_status = 400,
                resp_json = [(''error'', ustr ''PDF is empty or cannot be read'')]\<rparr>, PDF_VECTORSTORES)
     else
     (case split_documents sv documents of
        Inl e \<Rightarrow> (Inl e, PDF_VECTORSTORES)
      | Inr docs \<Rightarrow>
     (case from_documents sv docs of
        Inl e \<Rightarrow> (Inl e, PDF_VECTORSTORES)
      | Inr vectorstore \<Rightarrow>
     (let stores = PDF_VECTORSTORES(uid \<mapsto> vectorstore)
      in case remove_file sv of
           Some e \<Rightarrow> (Inl e, stores)
         | None \<Rightarrow>
             (Inr \<lparr>resp_status = 200,
                   resp_json = [(''status'', ustr ''PDF uploaded and processed successfully.'')]\<rparr>,
              stores))))))"

definition upload_pdf ::
  "('doc, 'idx) pdf_services \<Rightarrow> nat \<Rightarrow> bytes option \<Rightarrow> (nat \<rightharpoonup> 'idx) \<Rightarrow> response \<times> (nat \<rightharpoonup> 'idx)" where
  \<comment> \<open>\<open>uid\<close> is \<open>current_user.id\<close>; the third argument is \<open>request.files.get('pdf')\<close>.\<close>
  "upload_pdf sv uid pdf PDF_VECTORSTORES =
     (case pdf of
        None \<Rightarrow> (\<lparr>resp_status = 400, resp_json = [(''error'', ustr ''No PDF uploaded'')]\<rparr>,
                 PDF_VECTORSTORES)
      | Some pdf_file \<Rightarrow>
          (case upload_pdf_try sv uid pdf_file PDF_VECTORSTORES of
             (Inr r, stores) \<Rightarrow> (r, stores)
           | (Inl e, stores) \<Rightarrow>
               (\<lparr>resp_status = 500, resp_json = [(''error'', str_of e)]\<rparr>, stores)))"

subsection \<open>Route \<open>/history\<close>\<close>

definition order_by_desc :: "('a \<Rightarrow> nat) \<Rightarrow> 'a list \<Rightarrow> 'a list" where
  \<comment> \<open>\<open>ORDER BY ... DESC\<close>. SQL leaves the order of rows with equal keys open; the
      model fixes one, and the statements below hold for each.\<close>
  "order_by_desc key rows = rev (sort_key key rows)"

datatype history_view =
  AdminRows "(ustring \<times> ustring \<times> ustring \<times> nat) list"
| OwnRows "(ustring \<times> ustring \<times> nat) list"

definition history :: "user list \<Rightarrow> question_row list \<Rightarrow> user \<Rightarrow> history_view" where
  \<comment> \<open>The rows handed to the template, for the tables \<open>users\<close> and \<open>questions\<close> and
      the caller \<open>current_user\<close>.\<close>
  "history users qs current_user =
     (let user_id = u_id current_user;
          is_admin = (u_name current_user = ustr ''admin'')
      in if is_admin
         then AdminRows (order_by_desc (\<lambda>(n, q, a, t). t)
                [(u_name u, q_question r, q_answer r, q_timestamp r).
                   r \<leftarrow> qs, u \<leftarrow> users, q_user r = u_id u])
         else OwnRows (order_by_desc (\<lambda>(q, a, t). t)
                [(q_question r, q_answer r, q_timestamp r). r \<leftarrow> qs, q_user r = user_id]))"

fun view_timestamps :: "history_view \<Rightarrow> nat list" where
  "view_timestamps (AdminRows rows) = map (\<lambda>(n, q, a, t). t) rows"
| "view_timestamps (OwnRows rows) = map (\<lambda>(q, a, t). t) rows"

subsection \<open>Sample data\<close>

definition demo_services :: services where
  "demo_services =
     \<lparr>post_generate = (\<lambda>q. Inr (Some (ustr ''**DNA** carries genes.''))), db_fault = None\<rparr>"

definition demo_world :: world where
  "demo_world = \<lparr>questions = [], model_requests = [], clock = 7\<rparr>"

definition demo_user :: user where
  "demo_user = \<lparr>u_id = 2, u_name = ustr ''asha''\<rparr>"

definition down_services :: services where
  "down_services = \<lparr>post_generate = (\<lambda>q. Inl (Exn (ustr ''Connection refused''))), db_fault = None\<rparr>"

definition locked_services :: services where
  "locked_services =
     \<lparr>post_generate = (\<lambda>q. Inr (Some (ustr ''**DNA** carries genes.''))),
      db_fault = Some (Exn (ustr ''database is locked''))\<rparr>"

definition png_open :: "bytes \<Rightarrow> exn + bytes" where
  \<comment> \<open>A decoder that knows one format: a file is an image when it starts with the four
      bytes of the PNG signature's head.\<close>
  "png_open f =
     (if prefix [137, 80, 78, 71] f then Inr (drop 4 f)
      else Inl (Exn (ustr ''cannot identify image file'')))"

definition read_pixels :: "bytes \<Rightarrow> exn + ustring" where
  "read_pixels img = Inr img"

definition failing_gtts :: "jval \<Rightarrow> ustring \<Rightarrow> exn option" where
  "failing_gtts text lang = Some (Exn (ustr ''boom''))"

definition hello_tts :: tts_json where
  "hello_tts = \<lparr>j_text = Some (JStr (ustr ''Hello'')), j_tts_lang = None\<rparr>"

definition demo_pdf_services :: "(ustring, ustring list) pdf_services" where
  \<comment> \<open>One document per file, holding the file's text; the index is the list of chunks.\<close>
  "demo_pdf_services =
     \<lparr>save_file = (\<lambda>f. None),
      pdf_load = (\<lambda>f. if f = [] then Inr [] else Inr [f]),
      split_documents = (\<lambda>ds. Inr ds),
      from_documents = (\<lambda>ds. Inr ds),
      remove_file = None\<rparr>"

definition demo_stores :: "nat \<rightharpoonup> ustring list" where
  "demo_stores = [2 \<mapsto> [ustr ''old notes''], 3 \<mapsto> [ustr ''other'']]"

definition admin_user :: user where
  "admin_user = \<lparr>u_id = 1, u_name = ustr ''admin''\<rparr>"

definition demo_users :: "user list" where
  "demo_users = [admin_user, demo_user]"

definition demo_questions :: "question_row list" where
  "demo_questions =
     [\<lparr>q_user = 2, q_question = ustr ''q1'', q_answer = ustr ''a1'', q_timestamp = 100\<rparr>,
      \<lparr>q_user = 1, q_question = ustr ''q2'', q_answer = ustr ''a2'', q_timestamp = 101\<rparr>,
      \<lparr>q_user = 2, q_question = ustr ''q3'', q_answer = ustr ''a3'', q_timestamp = 101\<rparr>,
      \<lparr>q_user = 2, q_question = ustr ''q4'', q_answer = ustr ''a4'', q_timestamp = 101\<rparr>]"

section \<open>Properties\<close>

subsection \<open>Evaluation and trimming\<close>

lemmas eval_string =
  ustr_def strip_def lstrip_def rstrip_def is_space_def is_linebreak_def is_bullet_def

lemmas eval_cleaner =
  clean_markdown_def match_fence_def match_image_def match_link_def match_bullet_def
  sub_bullet_def strip_markers_def Let_def

lemma not_space_qmark: "\<not> is_space 63"
  by (simp add: is_space_def)

lemma lstrip_idem: "lstrip (lstrip s) = lstrip s"
  by (simp add: lstrip_def dropWhile_idem)

lemma rstrip_idem: "rstrip (rstrip s) = rstrip s"
  by (simp add: rstrip_def dropWhile_idem)

lemma lstrip_Nil_iff: "lstrip s = [] \<longleftrightarrow> (\<forall>c\<in>set s. is_space c)"
  by (simp add: lstrip_def dropWhile_eq_Nil_conv)

lemma rstrip_Nil_iff: "rstrip s = [] \<longleftrightarrow> (\<forall>c\<in>set s. is_space c)"
  by (simp add: rstrip_def dropWhile_eq_Nil_conv)

lemma set_lstrip: "set (lstrip s) \<subseteq> set s"
  by (simp add: lstrip_def set_dropWhileD subsetI)

lemma set_rstrip: "set (rstrip s) \<subseteq> set s"
  using set_dropWhileD [of _ is_space "rev s"] by (auto simp: rstrip_def)

lemma set_strip: "set (strip s) \<subseteq> set s"
  using set_lstrip set_rstrip unfolding strip_def by blast

lemma strip_Nil_iff: "strip s = [] \<longleftrightarrow> (\<forall>c\<in>set s. is_space c)"
proof
  assume "strip s = []"
  then have "\<forall>c\<in>set (lstrip s). is_space c"
    by (simp add: strip_def rstrip_Nil_iff)
  moreover have "lstrip s = [] \<or> \<not> is_space (hd (lstrip s))"
    unfolding lstrip_def by (metis hd_dropWhile)
  ultimately have "lstrip s = []"
    by (cases "lstrip s") auto
  then show "\<forall>c\<in>set s. is_space c" by (simp add: lstrip_Nil_iff)
next
  assume "\<forall>c\<in>set s. is_space c"
  then have "lstrip s = []" by (simp add: lstrip_Nil_iff)
  then show "strip s = []" by (simp add: strip_def rstrip_def)
qed


lemma lstrip_fixed: "s = [] \<or> \<not> is_space (hd s) \<Longrightarrow> lstrip s = s"
  by (cases s) (auto simp: lstrip_def)

lemma rstrip_keeps_head: "s = [] \<or> \<not> is_space (hd s) \<Longrightarrow> rstrip s = [] \<or> \<not> is_space (hd (rstrip s))"
proof (cases s)
  case Nil
  then show ?thesis by (simp add: rstrip_def)
next
  case (Cons x xs)
  assume "s = [] \<or> \<not> is_space (hd s)"
  with Cons have x: "\<not> is_space x" by simp
  have "rstrip (x # xs) = x # rstrip xs"
    using x by (simp add: rstrip_def dropWhile_append3)
  with Cons x show ?thesis by simp
qed

lemma lstrip_head: "lstrip s = [] \<or> \<not> is_space (hd (lstrip s))"
  unfolding lstrip_def by (metis hd_dropWhile)

lemma strip_idem: "strip (strip s) = strip s"
proof -
  have "lstrip (rstrip (lstrip s)) = rstrip (lstrip s)"
    by (rule lstrip_fixed) (rule rstrip_keeps_head [OF lstrip_head])
  then show ?thesis by (simp add: strip_def rstrip_idem)
qed

lemma split_char_first:
  "(case split_char c s of [] \<Rightarrow> [] | p # ps \<Rightarrow> p) = takeWhile (\<lambda>x. x \<noteq> c) s"
  by (induction s) (auto split: list.splits)

lemma heading_of_stripped:
  "strip (takeWhile (\<lambda>c. c \<noteq> 63) (strip q)) = strip (takeWhile (\<lambda>c. c \<noteq> 63) q)"
proof (cases "63 \<in> set q")
  case False
  then have "takeWhile (\<lambda>c. c \<noteq> 63) q = q" by (auto simp: takeWhile_eq_all_conv)
  moreover from False set_strip [of q] have "takeWhile (\<lambda>c. c \<noteq> 63) (strip q) = strip q"
    by (auto simp: takeWhile_eq_all_conv)
  ultimately show ?thesis by (simp only: strip_idem)
next
  case True
  then obtain a b where q: "q = a @ 63 # b" and a: "63 \<notin> set a"
    by (meson split_list_first)
  have l: "lstrip q = lstrip a @ 63 # b"
    unfolding q lstrip_def by (simp add: dropWhile_append3 not_space_qmark)
  have r: "rstrip (lstrip a @ 63 # b) = lstrip a @ 63 # rstrip b"
    unfolding rstrip_def by (simp add: dropWhile_append3 not_space_qmark)
  have tw: "takeWhile (\<lambda>c. c \<noteq> 63) (xs @ 63 # ys) = xs" if "63 \<notin> set xs" for xs ys :: ustring
    using that by (induction xs) auto
  from a set_lstrip [of a] have a': "63 \<notin> set (lstrip a)" by auto
  have "takeWhile (\<lambda>c. c \<noteq> 63) (strip q) = lstrip a"
    unfolding strip_def l r by (rule tw [OF a'])
  moreover have "takeWhile (\<lambda>c. c \<noteq> 63) q = a"
    unfolding q by (rule tw [OF a])
  ultimately show ?thesis by (simp add: strip_def lstrip_idem)
qed

lemma make_heading_strip: "make_heading (strip q) = spec_heading q"
  by (simp add: make_heading_def spec_heading_def split_char_first heading_of_stripped)

lemma ask_ollama_returns: "\<exists>a w'. ask_ollama sv cu q w = (Inr a, w')"
  by (auto simp: ask_ollama_def split: prod.splits sum.splits)

text \<open>
  C1. For every question that \<open>/api/ask\<close> accepts (a string that is not empty once
  trimmed), the handler answers 200 and the heading of the answer is the text of the
  question before its first \<open>?\<close> (the whole question when it has none) with the
  surrounding whitespace trimmed, or the literal \<open>Answer\<close> when that text is empty. The
  instance below is the question \<open>What is DNA? Explain.\<close> with the heading
  \<open>What is DNA\<close>.
\<close>

theorem ask_heading:
  assumes "j_question data = Some (JStr q)" and "strip q \<noteq> []"
  shows "\<exists>b w'. ask sv cu data w =
           (Inr \<lparr>resp_status = 200,
                 resp_json = [(''heading'', spec_heading q), (''body'', b)]\<rparr>, w')"
proof -
  obtain a w' where "ask_ollama sv cu (strip q) w = (Inr a, w')"
    using ask_ollama_returns by blast
  with assms show ?thesis
    by (simp add: ask_def make_heading_strip)
qed

theorem ask_heading_witness:
  "strip (ustr ''What is DNA? Explain.'') \<noteq> [] \<and>
   (\<exists>b w'. ask demo_services None
       \<lparr>j_question = Some (JStr (ustr ''What is DNA? Explain.'')), j_lang = None\<rparr> demo_world =
     (Inr \<lparr>resp_status = 200,
           resp_json = [(''heading'', ustr ''What is DNA''), (''body'', b)]\<rparr>, w'))"
proof -
  have ne: "strip (ustr ''What is DNA? Explain.'') \<noteq> []"
    by (simp add: eval_string)
  have h: "spec_heading (ustr ''What is DNA? Explain.'') = ustr ''What is DNA''"
    by (simp add: spec_heading_def eval_string)
  show ?thesis
    using ne ask_heading [of "\<lparr>j_question = Some (JStr (ustr ''What is DNA? Explain.'')), j_lang = None\<rparr>"
        "ustr ''What is DNA? Explain.''" demo_services None demo_world]
    unfolding h by simp
qed

subsection \<open>The formatter on the example of the specification\<close>

text \<open>
  C9. For the raw answer \<open>**Bold** and _em_\<close>, four newlines, \<open>Next\<close>, the body that
  \<open>/api/ask\<close> computes (\<open>clean_markdown\<close> of the trimmed answer) is \<open>Bold and em\<close>, two
  newlines, \<open>Next\<close>.
\<close>

theorem clean_markdown_example:
  "clean_markdown (strip (ustr ''**Bold** and _em_'' @ [10, 10, 10, 10] @ ustr ''Next'')) =
     ustr ''Bold and em'' @ [10, 10] @ ustr ''Next''"
  by (simp add: eval_string eval_cleaner)

subsection \<open>Empty questions\<close>

text \<open>
  C4. When the \<open>question\<close> key of a POST to \<open>/api/ask\<close> is absent, or is a string that
  is empty or all whitespace, the handler answers 400 with a JSON body that has the key
  \<open>message\<close>, and the world is the one it started in: no prompt was posted to the model
  and table \<open>questions\<close> has the rows it had.
\<close>

theorem ask_empty_question:
  assumes "j_question data = None \<or>
           (\<exists>s. j_question data = Some (JStr s) \<and> (\<forall>c\<in>set s. is_space c))"
  shows "ask sv cu data w =
           (Inr \<lparr>resp_status = 400,
                 resp_json = [(''message'', ustr ''No question provided.'')]\<rparr>, w)"
proof -
  have e: "strip [] = []" by (simp add: strip_def lstrip_def rstrip_def)
  from assms show ?thesis
  proof
    assume "j_question data = None"
    then show ?thesis by (simp add: ask_def e)
  next
    assume "\<exists>s. j_question data = Some (JStr s) \<and> (\<forall>c\<in>set s. is_space c)"
    then obtain s where "j_question data = Some (JStr s)" and "strip s = []"
      using strip_Nil_iff by blast
    then show ?thesis by (simp add: ask_def)
  qed
qed

theorem ask_empty_question_witness:
  "list_all is_space (ustr ''   '') \<and>
   ask demo_services (Some demo_user) \<lparr>j_question = Some (JStr (ustr ''   '')), j_lang = None\<rparr> demo_world =
     (Inr \<lparr>resp_status = 400, resp_json = [(''message'', ustr ''No question provided.'')]\<rparr>,
      demo_world) \<and>
   ask demo_services (Some demo_user) \<lparr>j_question = None, j_lang = None\<rparr> demo_world =
     (Inr \<lparr>resp_status = 400, resp_json = [(''message'', ustr ''No question provided.'')]\<rparr>,
      demo_world)"
proof -
  have sp: "\<forall>c\<in>set (ustr ''   ''). is_space c"
    by (simp add: ustr_def is_space_def)
  then have "list_all is_space (ustr ''   '')"
    by (simp add: list_all_iff)
  then show ?thesis
    using sp
      ask_empty_question [of "\<lparr>j_question = Some (JStr (ustr ''   '')), j_lang = None\<rparr>"
        demo_services "Some demo_user" demo_world]
      ask_empty_question [of "\<lparr>j_question = None, j_lang = None\<rparr>"
        demo_services "Some demo_user" demo_world]
    by simp
qed

subsection \<open>Failures of the model client\<close>

text \<open>
  C5. \<open>ask_ollama\<close> never raises to its caller. When the request to the model or the
  decoding of its response fails, it returns exactly the sentinel
  \<open>Sorry, something went wrong with the model.\<close> When the model answered and the insert
  into table \<open>questions\<close> fails, the failure is swallowed: the answer is returned as it
  was obtained, and the table is unchanged.
\<close>

theorem ask_ollama_failures:
  "(\<exists>a w'. ask_ollama sv cu q w = (Inr a, w')) \<and>
   (\<forall>e. post_generate sv q = Inl e \<longrightarrow>
      ask_ollama sv cu q w = (Inr SENTINEL, w\<lparr>model_requests := model_requests w @ [q]\<rparr>)) \<and>
   (\<forall>r e. post_generate sv q = Inr r \<and> db_fault sv = Some e \<longrightarrow>
      ask_ollama sv cu q w =
        (Inr (case r of None \<Rightarrow> ustr ''No response received.'' | Some a \<Rightarrow> a),
         w\<lparr>model_requests := model_requests w @ [q]\<rparr>))"
  by (auto simp: ask_ollama_def ask_ollama_try_def insert_question_def Let_def
      split: prod.splits sum.splits option.splits)

theorem ask_ollama_failures_witness:
  "post_generate down_services (ustr ''Hi'') = Inl (Exn (ustr ''Connection refused'')) \<and>
   ask_ollama down_services (Some demo_user) (ustr ''Hi'') demo_world =
     (Inr SENTINEL, demo_world\<lparr>model_requests := [ustr ''Hi'']\<rparr>) \<and>
   post_generate locked_services (ustr ''Hi'') = Inr (Some (ustr ''**DNA** carries genes.'')) \<and>
   db_fault locked_services = Some (Exn (ustr ''database is locked'')) \<and>
   ask_ollama locked_services (Some demo_user) (ustr ''Hi'') demo_world =
     (Inr (ustr ''**DNA** carries genes.''), demo_world\<lparr>model_requests := [ustr ''Hi'']\<rparr>)"
  using ask_ollama_failures [of down_services "Some demo_user" "ustr ''Hi''" demo_world]
    ask_ollama_failures [of locked_services "Some demo_user" "ustr ''Hi''" demo_world]
  by (simp add: down_services_def locked_services_def demo_world_def)

subsection \<open>The \<open>lang\<close> field of \<open>/api/ask\<close>\<close>

text \<open>
  C10. The answer of \<open>/api/ask\<close> does not depend on the \<open>lang\<close> field: two requests
  with the same \<open>question\<close>, handled by the same services (so with the same raw model
  answer) in the same world, get the same response, heading and body included, whatever
  \<open>lang\<close> is in each, present or absent.
\<close>

theorem ask_ignores_lang:
  assumes "j_question d1 = j_question d2"
  shows "ask sv cu d1 w = ask sv cu d2 w"
  using assms by (simp add: ask_def Let_def split: sum.splits option.splits)

theorem ask_ignores_lang_witness:
  "ask demo_services (Some demo_user)
     \<lparr>j_question = Some (JStr (ustr ''What is DNA?'')), j_lang = Some (JStr (ustr ''hi''))\<rparr> demo_world =
   ask demo_services (Some demo_user)
     \<lparr>j_question = Some (JStr (ustr ''What is DNA?'')), j_lang = None\<rparr> demo_world"
  using ask_ignores_lang [of
      "\<lparr>j_question = Some (JStr (ustr ''What is DNA?'')), j_lang = Some (JStr (ustr ''hi''))\<rparr>"
      "\<lparr>j_question = Some (JStr (ustr ''What is DNA?'')), j_lang = None\<rparr>"
      demo_services "Some demo_user" demo_world]
  by simp

subsection \<open>Exceptions that leave a handler\<close>

text \<open>
  C3. The claim is that every failure of a library call is caught in the route handler
  and answered as a JSON error, in particular on \<open>/api/ocr\<close> for files that are not
  images. The handler of \<open>/api/ocr\<close> opens the image before its \<open>try\<close> begins: when
  \<open>Image.open\<close> raises on the uploaded file, the exception leaves the handler and no JSON
  error body is built.
\<close>

theorem ocr_undecodable_image_propagates:
  assumes "image_open f = Inl e"
  shows "ocr_question image_open image_to_string (Some f) = Inl e"
  using assms by (simp add: ocr_question_def)

theorem ocr_undecodable_image_propagates_witness:
  "png_open (ustr ''hello'') = Inl (Exn (ustr ''cannot identify image file'')) \<and>
   ocr_question png_open read_pixels (Some (ustr ''hello'')) =
     Inl (Exn (ustr ''cannot identify image file''))"
proof -
  have h: "png_open (ustr ''hello'') = Inl (Exn (ustr ''cannot identify image file''))"
    by (simp add: png_open_def ustr_def)
  show ?thesis
    using h ocr_undecodable_image_propagates
      [of png_open "ustr ''hello''" "Exn (ustr ''cannot identify image file'')" read_pixels]
    by simp
qed

text \<open>
  The same handler does catch what \<open>pytesseract\<close> raises, inside its \<open>try\<close>.
\<close>

lemma ocr_recognition_failure_caught:
  assumes "image_open f = Inr img" and "image_to_string img = Inl e"
  shows "ocr_question image_open image_to_string (Some f) =
           Inr \<lparr>resp_status = 500, resp_json = [(''error'', str_of e)]\<rparr>"
  using assms by (simp add: ocr_question_def)

subsection \<open>Failures of text-to-speech\<close>

text \<open>
  The error body of \<open>/api/tts\<close> does not echo the exception's message: for a synthesis
  that raises with the message \<open>boom\<close>, the body is the fixed \<open>TTS failed\<close>, in which
  \<open>boom\<close> does not occur.
\<close>

theorem tts_failure_counterexample:
  "text_to_speech failing_gtts hello_tts =
     (\<lparr>resp_status = 500, resp_json = [(''error'', ustr ''TTS failed'')]\<rparr>,
      [ustr ''TTS failed: boom'']) \<and>
   \<not> sublist (ustr ''boom'') (ustr ''TTS failed'')"
  by (simp add: text_to_speech_def speak_def failing_gtts_def hello_tts_def ustr_def
      sublist_Cons_right)

text \<open>
  C6, as amended. For every POST to \<open>/api/tts\<close> with a non-empty text whose synthesis
  raises an exception, the response is 500 with the JSON body \<open>{"error": "TTS failed"}\<close>,
  the same for every exception; the exception's message goes to the log only.
\<close>

theorem tts_failure_generic:
  assumes "j_text data = Some text" and "truthy text"
    and "gtts_save text (if j_tts_lang data = Some (JStr (ustr ''hi'')) then ustr ''hi'' else ustr ''en'') = Some e"
  shows "text_to_speech gtts_save data =
           (\<lparr>resp_status = 500, resp_json = [(''error'', ustr ''TTS failed'')]\<rparr>,
            [ustr ''TTS failed: '' @ str_of e])"
proof (cases "j_tts_lang data")
  case None
  with assms show ?thesis
    by (simp add: text_to_speech_def speak_def Let_def)
next
  case (Some v)
  with assms show ?thesis
    by (simp add: text_to_speech_def speak_def Let_def)
qed

theorem tts_failure_generic_witness:
  "j_text hello_tts = Some (JStr (ustr ''Hello'')) \<and> truthy (JStr (ustr ''Hello'')) \<and>
   failing_gtts (JStr (ustr ''Hello'')) (ustr ''en'') = Some (Exn (ustr ''boom'')) \<and>
   text_to_speech failing_gtts hello_tts =
     (\<lparr>resp_status = 500, resp_json = [(''error'', ustr ''TTS failed'')]\<rparr>,
      [ustr ''TTS failed: '' @ ustr ''boom''])"
proof -
  have a: "j_text hello_tts = Some (JStr (ustr ''Hello''))" by (simp add: hello_tts_def)
  have b: "truthy (JStr (ustr ''Hello''))" by (simp add: ustr_def)
  have c: "failing_gtts (JStr (ustr ''Hello''))
      (if j_tts_lang hello_tts = Some (JStr (ustr ''hi'')) then ustr ''hi'' else ustr ''en'') =
      Some (Exn (ustr ''boom''))"
    by (simp add: failing_gtts_def)
  have d: "failing_gtts (JStr (ustr ''Hello'')) (ustr ''en'') = Some (Exn (ustr ''boom''))"
    by (simp add: failing_gtts_def)
  show ?thesis
    using a b c d tts_failure_generic
      [of hello_tts "JStr (ustr ''Hello'')" failing_gtts "Exn (ustr ''boom'')"]
    by simp
qed

subsection \<open>The per-user retrieval indices\<close>

text \<open>
  C8. \<open>PDF_VECTORSTORES\<close> is a dictionary, so a user id has at most one index. After a
  successful upload by user \<open>uid\<close> (answer 200), the index stored for \<open>uid\<close> is the one
  that the library built from the uploaded file alone, whatever was stored for \<open>uid\<close>
  before, and every other user's entry is what it was.
\<close>

theorem upload_pdf_replaces:
  assumes "upload_pdf sv uid (Some f) stores = (r, stores')" and "resp_status r = 200"
  shows "\<exists>documents docs vs.
           pdf_load sv f = Inr documents \<and> split_documents sv documents = Inr docs \<and>
           from_documents sv docs = Inr vs \<and>
           stores' uid = Some vs \<and> (\<forall>u. u \<noteq> uid \<longrightarrow> stores' u = stores u)"
  using assms
  by (auto simp: upload_pdf_def upload_pdf_try_def Let_def
      split: option.splits sum.splits if_splits prod.splits)

theorem upload_pdf_replaces_witness:
  "upload_pdf demo_pdf_services 2 (Some (ustr ''new notes'')) demo_stores =
     (\<lparr>resp_status = 200,
       resp_json = [(''status'', ustr ''PDF uploaded and processed successfully.'')]\<rparr>,
      demo_stores(2 \<mapsto> [ustr ''new notes''])) \<and>
   (demo_stores(2 \<mapsto> [ustr ''new notes''])) 2 = Some [ustr ''new notes''] \<and>
   (demo_stores(2 \<mapsto> [ustr ''new notes''])) 3 = demo_stores 3"
proof -
  have u: "upload_pdf demo_pdf_services 2 (Some (ustr ''new notes'')) demo_stores =
     (\<lparr>resp_status = 200,
       resp_json = [(''status'', ustr ''PDF uploaded and processed successfully.'')]\<rparr>,
      demo_stores(2 \<mapsto> [ustr ''new notes'']))"
    by (simp add: upload_pdf_def upload_pdf_try_def demo_pdf_services_def ustr_def)
  show ?thesis
    using u upload_pdf_replaces [OF u] by simp
qed

subsection \<open>The history listing\<close>

lemma order_by_desc_mset: "mset (order_by_desc key rows) = mset rows"
  by (simp add: order_by_desc_def)

lemma order_by_desc_sorted: "sorted_wrt (\<ge>) (map key (order_by_desc key rows))"
proof -
  have "sorted (map key (sort_key key rows))" by (rule sorted_sort_key)
  then have "sorted_wrt (\<lambda>x y. y \<le> x) (rev (map key (sort_key key rows)))"
    by (simp add: sorted_wrt_rev)
  then show ?thesis by (simp add: order_by_desc_def rev_map)
qed

lemma own_rows_mset:
  "mset [(q_question r, q_answer r, q_timestamp r). r \<leftarrow> qs, q_user r = uid] =
     image_mset (\<lambda>r. (q_question r, q_answer r, q_timestamp r))
       (filter_mset (\<lambda>r. q_user r = uid) (mset qs))"
  by (induction qs) auto

text \<open>
  C7, as amended. A caller whose name is not \<open>admin\<close> is shown exactly the own
  question records; the caller named \<open>admin\<close> is shown the records of every user, each
  joined with its owner's name. In both cases the timestamps of the listing never
  increase from one row to the next; rows of the same second follow each other in an
  order that the query does not fix.
\<close>

theorem history_listing:
  "(u_name cu \<noteq> ustr ''admin'' \<longrightarrow>
      (\<exists>rows. history users qs cu = OwnRows rows \<and>
         mset rows = image_mset (\<lambda>r. (q_question r, q_answer r, q_timestamp r))
                       (filter_mset (\<lambda>r. q_user r = u_id cu) (mset qs)))) \<and>
   (u_name cu = ustr ''admin'' \<longrightarrow>
      (\<exists>rows. history users qs cu = AdminRows rows \<and>
         mset rows = mset [(u_name u, q_question r, q_answer r, q_timestamp r).
                             r \<leftarrow> qs, u \<leftarrow> users, q_user r = u_id u])) \<and>
   sorted_wrt (\<ge>) (view_timestamps (history users qs cu))"
proof (cases "u_name cu = ustr ''admin''")
  case True
  then show ?thesis
    by (simp add: history_def order_by_desc_mset order_by_desc_sorted)
next
  case False
  then show ?thesis
    by (simp add: history_def order_by_desc_mset order_by_desc_sorted own_rows_mset)
qed

lemmas eval_history =
  history_def order_by_desc_def demo_users_def demo_questions_def demo_user_def admin_user_def
  ustr_def

theorem history_listing_witness:
  "u_name demo_user \<noteq> ustr ''admin'' \<and>
   history demo_users demo_questions demo_user =
     OwnRows [(ustr ''q4'', ustr ''a4'', 101), (ustr ''q3'', ustr ''a3'', 101),
              (ustr ''q1'', ustr ''a1'', 100)] \<and>
   u_name admin_user = ustr ''admin'' \<and>
   history demo_users demo_questions admin_user =
     AdminRows [(ustr ''asha'', ustr ''q4'', ustr ''a4'', 101),
                (ustr ''asha'', ustr ''q3'', ustr ''a3'', 101),
                (ustr ''admin'', ustr ''q2'', ustr ''a2'', 101),
                (ustr ''asha'', ustr ''q1'', ustr ''a1'', 100)] \<and>
   sorted_wrt (\<ge>) (view_timestamps (history demo_users demo_questions demo_user)) \<and>
   sorted_wrt (\<ge>) (view_timestamps (history demo_users demo_questions admin_user))"
  using history_listing [of demo_user demo_users demo_questions]
    history_listing [of admin_user demo_users demo_questions]
  by (simp add: eval_history)

text \<open>
  The order is not strict: two records of the same second are listed one after the other.
\<close>

theorem history_strict_order_counterexample:
  "\<not> sorted_wrt (>) (view_timestamps (history demo_users demo_questions demo_user))"
  by (simp add: eval_history)

subsection \<open>What the substitutions leave alone\<close>

lemma set_replace_str: "set (replace_str old [] s) \<subseteq> set s"
proof (induction old "[] :: ustring" s rule: replace_str.induct)
  case (1 old)
  show ?case by simp
next
  case (2 old c cs)
  show ?case
  proof (cases "old \<noteq> [] \<and> prefix old (c # cs)")
    case True
    with 2(1) have "set (replace_str old [] (drop (length old) (c # cs))) \<subseteq> set (drop (length old) (c # cs))"
      by simp
    also have "\<dots> \<subseteq> set (c # cs)" by (rule set_drop_subset)
    finally show ?thesis using True by simp
  next
    case False
    with 2(2) show ?thesis by auto
  qed
qed

lemma replace_str_removes: "c \<notin> set (replace_str [c] [] s)"
  by (induction s) auto

lemma replace_str_absent: "old \<noteq> [] \<Longrightarrow> hd old \<notin> set s \<Longrightarrow> replace_str old new s = s"
proof (induction s)
  case Nil
  show ?case by simp
next
  case (Cons c cs)
  from Cons.prems have "\<not> prefix old (c # cs)"
    by (cases old) auto
  with Cons show ?case by simp
qed

lemma set_strip_markers: "set (strip_markers s) \<subseteq> set s - {42, 95, 96}"
proof -
  let ?a = "replace_str [95, 95] [] (replace_str [42, 42] [] s)"
  let ?b = "replace_str [96] [] ?a"
  let ?c = "replace_str [42] [] ?b"
  have a: "set ?a \<subseteq> set s"
    using set_replace_str [of "[95, 95]" "replace_str [42, 42] [] s"] set_replace_str [of "[42, 42]" s]
    by blast
  have b: "set ?b \<subseteq> set s - {96}"
    using set_replace_str [of "[96]" ?a] replace_str_removes [of 96 ?a] a by blast
  have c: "set ?c \<subseteq> set s - {96, 42}"
    using set_replace_str [of "[42]" ?b] replace_str_removes [of 42 ?b] b by blast
  have "set (replace_str [95] [] ?c) \<subseteq> set s - {96, 42, 95}"
    using set_replace_str [of "[95]" ?c] replace_str_removes [of 95 ?c] c by blast
  then show ?thesis unfolding strip_markers_def by blast
qed

lemma strip_markers_absent:
  assumes "42 \<notin> set s" and "95 \<notin> set s" and "96 \<notin> set s"
  shows "strip_markers s = s"
  using assms by (simp add: strip_markers_def replace_str_absent)

lemma sub_fences_absent: "96 \<notin> set s \<Longrightarrow> sub_fences s = s"
  by (induction s) (auto simp: match_fence_def)

lemma match_image_bracket: "match_image s = Some m \<Longrightarrow> sublist [93, 40] s"
proof -
  assume m: "match_image s = Some m"
  define r1 where "r1 = dropWhile (\<lambda>x. x \<noteq> 93) (drop 2 s)"
  from m have "prefix [93, 40] r1"
    unfolding match_image_def Let_def r1_def by (auto split: if_splits)
  then have "sublist [93, 40] r1" by (rule prefix_imp_sublist)
  also have "sublist r1 (drop 2 s)"
    unfolding r1_def by (rule sublist_dropWhile)
  also have "sublist (drop 2 s) s" by (rule sublist_drop)
  finally show ?thesis .
qed

lemma match_link_bracket: "match_link s = Some m \<Longrightarrow> sublist [93, 40] s"
proof -
  assume m: "match_link s = Some m"
  define r1 where "r1 = dropWhile (\<lambda>x. x \<noteq> 93) (drop 1 s)"
  from m have "prefix [93, 40] r1"
    unfolding match_link_def Let_def r1_def by (auto split: if_splits)
  then have "sublist [93, 40] r1" by (rule prefix_imp_sublist)
  also have "sublist r1 (drop 1 s)"
    unfolding r1_def by (rule sublist_dropWhile)
  also have "sublist (drop 1 s) s" by (rule sublist_drop)
  finally show ?thesis .
qed

lemma sub_images_absent: "\<not> sublist [93, 40] s \<Longrightarrow> sub_images s = s"
proof (induction s)
  case Nil
  show ?case by simp
next
  case (Cons c cs)
  from Cons.prems have "match_image (c # cs) = None"
    using match_image_bracket by (cases "match_image (c # cs)") auto
  moreover from Cons.prems have "\<not> sublist [93, 40] cs"
    by (simp add: sublist_Cons_right)
  ultimately show ?case using Cons.IH by simp
qed

lemma sub_links_absent: "\<not> sublist [93, 40] s \<Longrightarrow> sub_links s = s"
proof (induction s)
  case Nil
  show ?case by simp
next
  case (Cons c cs)
  from Cons.prems have "match_link (c # cs) = None"
    using match_link_bracket by (cases "match_link (c # cs)") auto
  moreover from Cons.prems have "\<not> sublist [93, 40] cs"
    by (simp add: sublist_Cons_right)
  ultimately show ?case using Cons.IH by simp
qed

subsection \<open>Lines\<close>

lemma splitlines_last:
  assumes "s \<noteq> []" and "dropWhile (\<lambda>x. \<not> is_linebreak x) s = []"
  shows "splitlines s = [s]"
proof -
  obtain c cs where s: "s = c # cs" using assms(1) by (cases s) auto
  have "takeWhile (\<lambda>x. \<not> is_linebreak x) s = s"
    using assms(2) takeWhile_dropWhile_id [of "\<lambda>x. \<not> is_linebreak x" s] by simp
  then show ?thesis
    unfolding s by (simp only: splitlines.simps Let_def assms(2) [unfolded s] list.case)
qed

lemma splitlines_step:
  assumes "dropWhile (\<lambda>x. \<not> is_linebreak x) s = b # r"
  shows "splitlines s =
    takeWhile (\<lambda>x. \<not> is_linebreak x) s #
      splitlines (if b = 13 \<and> r \<noteq> [] \<and> hd r = 10 then tl r else r)"
proof -
  obtain c cs where s: "s = c # cs" using assms by (cases s) auto
  show ?thesis
    unfolding s by (simp only: splitlines.simps Let_def assms [unfolded s] list.case)
qed

lemma splitlines_Nil_iff: "splitlines s = [] \<longleftrightarrow> s = []"
proof (cases "dropWhile (\<lambda>x. \<not> is_linebreak x) s")
  case Nil
  then show ?thesis using splitlines_last [of s] by (cases "s = []") auto
next
  case (Cons b r)
  then have "s \<noteq> []" by auto
  with splitlines_step [OF Cons] show ?thesis by simp
qed

lemma splitlines_chars:
  "l \<in> set (splitlines s) \<Longrightarrow> set l \<subseteq> set s \<and> (\<forall>c\<in>set l. \<not> is_linebreak c)"
proof (induction s arbitrary: l rule: splitlines.induct)
  case 1
  then show ?case by simp
next
  case (2 c cs)
  define line where "line = takeWhile (\<lambda>x. \<not> is_linebreak x) (c # cs)"
  define rest where "rest = dropWhile (\<lambda>x. \<not> is_linebreak x) (c # cs)"
  have line: "set line \<subseteq> set (c # cs) \<and> (\<forall>c\<in>set line. \<not> is_linebreak c)"
    unfolding line_def using set_takeWhileD [of _ "\<lambda>x. \<not> is_linebreak x" "c # cs"] by blast
  have s: "c # cs = line @ rest"
    unfolding line_def rest_def by simp
  show ?case
  proof (cases rest)
    case Nil
    then have "splitlines (c # cs) = [c # cs]"
      unfolding rest_def by (intro splitlines_last) simp_all
    moreover from s Nil have "line = c # cs" by simp
    ultimately show ?thesis using 2(2) line by simp
  next
    case (Cons b r)
    define nxt where "nxt = (if b = 13 \<and> r \<noteq> [] \<and> hd r = 10 then tl r else r)"
    have "set nxt \<subseteq> set r"
      unfolding nxt_def by (cases r) auto
    also have "\<dots> \<subseteq> set rest" using Cons by auto
    also have "\<dots> \<subseteq> set (c # cs)" unfolding s by simp
    finally have sub: "set nxt \<subseteq> set (c # cs)" .
    have "splitlines (c # cs) = line # splitlines nxt"
      unfolding line_def nxt_def by (rule splitlines_step) (use Cons rest_def in simp)
    with 2(2) have "l = line \<or> l \<in> set (splitlines nxt)" by simp
    then show ?thesis
    proof
      assume "l = line"
      with line show ?thesis by simp
    next
      assume "l \<in> set (splitlines nxt)"
      then have "set l \<subseteq> set nxt \<and> (\<forall>c\<in>set l. \<not> is_linebreak c)"
        using 2(1) [OF line_def rest_def Cons] unfolding nxt_def by blast
      with sub show ?thesis by blast
    qed
  qed
qed

lemma join_splitlines:
  "(\<forall>c\<in>set s. is_linebreak c \<longrightarrow> c = 10) \<Longrightarrow> s = [] \<or> last s \<noteq> 10 \<Longrightarrow>
   join_lines (splitlines s) = s"
proof (induction s rule: splitlines.induct)
  case 1
  show ?case by simp
next
  case (2 c cs)
  define line where "line = takeWhile (\<lambda>x. \<not> is_linebreak x) (c # cs)"
  define rest where "rest = dropWhile (\<lambda>x. \<not> is_linebreak x) (c # cs)"
  have s: "c # cs = line @ rest"
    unfolding line_def rest_def by simp
  show ?case
  proof (cases rest)
    case Nil
    then have "splitlines (c # cs) = [c # cs]"
      unfolding rest_def by (intro splitlines_last) simp_all
    then show ?thesis by simp
  next
    case (Cons b r)
    have "is_linebreak b"
      using hd_dropWhile [of "\<lambda>x. \<not> is_linebreak x" "c # cs"] Cons unfolding rest_def by auto
    moreover have "b \<in> set (c # cs)" unfolding s Cons by simp
    ultimately have b: "b = 10" using 2(2) by blast
    from s Cons b have s': "c # cs = line @ 10 # r" by simp
    have r: "r \<noteq> []"
    proof
      assume "r = []"
      with s' have "last (c # cs) = 10" by simp
      with 2(3) show False by simp
    qed
    have "\<forall>c\<in>set r. is_linebreak c \<longrightarrow> c = 10"
      using 2(2) unfolding s' by auto
    moreover have "last r \<noteq> 10"
      using 2(3) r unfolding s' by simp
    ultimately have "join_lines (splitlines r) = r"
      using 2(1) [OF line_def rest_def Cons] b by simp
    moreover obtain l ls where "splitlines r = l # ls"
      using r splitlines_Nil_iff by (cases "splitlines r") auto
    ultimately have j: "join_lines (line # splitlines r) = line @ 10 # r" by simp
    have "splitlines (c # cs) = line # splitlines (if b = 13 \<and> r \<noteq> [] \<and> hd r = 10 then tl r else r)"
      unfolding line_def by (rule splitlines_step) (use Cons rest_def in simp)
    with b have "splitlines (c # cs) = line # splitlines r" by simp
    with j s' show ?thesis by simp
  qed
qed

lemma set_join_lines: "set (join_lines ls) \<subseteq> (\<Union>l\<in>set ls. set l) \<union> {10}"
  by (induction ls rule: join_lines.induct) auto

lemma set_sub_bullet: "set (sub_bullet l) \<subseteq> set l"
proof (cases "match_bullet l")
  case None
  then show ?thesis by (simp add: sub_bullet_def)
next
  case (Some r)
  then obtain b r' where d: "dropWhile is_space l = b # r'" and r: "r = dropWhile is_space r'"
    by (auto simp: match_bullet_def split: list.splits if_splits)
  have "set r \<subseteq> set r'" unfolding r using set_dropWhileD by fastforce
  also have "\<dots> \<subseteq> set (dropWhile is_space l)" using d by auto
  also have "\<dots> \<subseteq> set l" using set_dropWhileD by fastforce
  finally show ?thesis using Some by (simp add: sub_bullet_def)
qed

lemma map_sub_bullet_id:
  "list_all (\<lambda>l. match_bullet l = None) ls \<Longrightarrow> map sub_bullet ls = ls"
  by (induction ls) (auto simp: sub_bullet_def)

subsection \<open>Runs of newlines\<close>

lemma collapse_run:
  assumes "prefix [10, 10, 10] s"
  shows "collapse_newlines s = 10 # 10 # collapse_newlines (dropWhile (\<lambda>x. x = 10) s)"
proof (cases s)
  case Nil
  with assms show ?thesis by simp
next
  case (Cons c cs)
  from assms have "prefix [10, 10, 10] (c # cs)" unfolding Cons .
  then show ?thesis
    unfolding Cons by (simp only: collapse_newlines.simps if_True)
qed

lemma collapse_keep:
  "\<not> prefix [10, 10, 10] (c # cs) \<Longrightarrow> collapse_newlines (c # cs) = c # collapse_newlines cs"
  by (simp only: collapse_newlines.simps if_False)

lemma set_collapse_newlines: "set (collapse_newlines s) \<subseteq> set s"
proof (induction s rule: collapse_newlines.induct)
  case 1
  show ?case by simp
next
  case (2 c cs)
  show ?case
  proof (cases "prefix [10, 10, 10] (c # cs)")
    case True
    then have c: "c = 10" by simp
    have "set (dropWhile (\<lambda>x. x = 10) (c # cs)) \<subseteq> set (c # cs)"
      using set_dropWhileD by fastforce
    with 2(1) [OF True] have "set (collapse_newlines (dropWhile (\<lambda>x. x = 10) (c # cs))) \<subseteq> set (c # cs)"
      by blast
    with c show ?thesis unfolding collapse_run [OF True] by auto
  next
    case False
    with 2(2) show ?thesis unfolding collapse_keep [OF False] by auto
  qed
qed

lemma take1_collapse: "take 1 (collapse_newlines s) = take 1 s"
proof (cases s)
  case Nil
  then show ?thesis by simp
next
  case (Cons c cs)
  show ?thesis
  proof (cases "prefix [10, 10, 10] (c # cs)")
    case True
    then have "c = 10" by simp
    then show ?thesis unfolding Cons collapse_run [OF True] by simp
  next
    case False
    show ?thesis unfolding Cons collapse_keep [OF False] by simp
  qed
qed

lemma take2_collapse: "take 2 (collapse_newlines s) = take 2 s"
proof (cases s)
  case Nil
  then show ?thesis by simp
next
  case (Cons c cs)
  show ?thesis
  proof (cases "prefix [10, 10, 10] (c # cs)")
    case True
    then obtain z where "cs = 10 # z" and "c = 10" by (cases cs) auto
    then show ?thesis unfolding Cons collapse_run [OF True] by simp
  next
    case False
    have "take 2 (c # collapse_newlines cs) = c # take 1 (collapse_newlines cs)"
      by (simp add: numeral_2_eq_2)
    also have "\<dots> = c # take 1 cs" by (simp only: take1_collapse)
    also have "\<dots> = take 2 (c # cs)" by (simp add: numeral_2_eq_2)
    finally show ?thesis unfolding Cons collapse_keep [OF False] .
  qed
qed

lemma no_run_after_two:
  assumes "y = [] \<or> hd y \<noteq> 10" and "\<not> sublist [10, 10, 10] y"
  shows "\<not> sublist [10, 10, 10] (10 # 10 # y)"
  using assms by (cases y) (auto simp: sublist_Cons_right)

lemma collapse_newlines_no_run: "\<not> sublist [10, 10, 10] (collapse_newlines s)"
proof (induction s rule: collapse_newlines.induct)
  case 1
  show ?case by simp
next
  case (2 c cs)
  show ?case
  proof (cases "prefix [10, 10, 10] (c # cs)")
    case True
    let ?d = "dropWhile (\<lambda>x. x = 10) (c # cs)"
    have d: "?d = [] \<or> hd ?d \<noteq> 10"
      using hd_dropWhile [of "\<lambda>x. x = 10" "c # cs"] by blast
    have "collapse_newlines ?d = [] \<or> hd (collapse_newlines ?d) \<noteq> 10"
    proof (cases "collapse_newlines ?d")
      case Nil
      then show ?thesis by simp
    next
      case (Cons x xs)
      then have "take 1 ?d = [x]" using take1_collapse [of ?d] by simp
      then have "?d \<noteq> [] \<and> hd ?d = x" by (cases ?d) auto
      with d Cons show ?thesis by auto
    qed
    with 2(1) [OF True] have "\<not> sublist [10, 10, 10] (10 # 10 # collapse_newlines ?d)"
      by (intro no_run_after_two)
    then show ?thesis unfolding collapse_run [OF True] .
  next
    case False
    have "\<not> prefix [10, 10, 10] (c # collapse_newlines cs)"
    proof
      assume p: "prefix [10, 10, 10] (c # collapse_newlines cs)"
      then have c: "c = 10" and "take 2 (collapse_newlines cs) = [10, 10]"
        by (auto simp: prefix_def)
      then have "take 2 cs = [10, 10]" by (simp only: take2_collapse)
      then have "prefix [10, 10] cs"
        by (metis take_is_prefix)
      with c have "prefix [10, 10, 10] (c # cs)" by simp
      with False show False by simp
    qed
    with 2(2) [OF False] show ?thesis
      unfolding collapse_keep [OF False] by (simp only: sublist_Cons_right) simp
  qed
qed

lemma collapse_newlines_absent: "\<not> sublist [10, 10, 10] s \<Longrightarrow> collapse_newlines s = s"
proof (induction s)
  case Nil
  show ?case by simp
next
  case (Cons c cs)
  from Cons.prems have np: "\<not> prefix [10, 10, 10] (c # cs)" and "\<not> sublist [10, 10, 10] cs"
    using sublist_Cons_right [of "[10, 10, 10]" c cs] by blast+
  with Cons.IH show ?case unfolding collapse_keep [OF np] by simp
qed

subsection \<open>The shape of a cleaned text\<close>

lemma sublist_strip: "sublist (strip s) s"
proof -
  have "sublist (rstrip (lstrip s)) (lstrip s)"
    unfolding rstrip_def by (simp add: sublist_rev_left)
  also have "sublist (lstrip s) s"
    unfolding lstrip_def by (rule sublist_dropWhile)
  finally show ?thesis unfolding strip_def .
qed

lemma strip_last: "strip s = [] \<or> \<not> is_space (last (strip s))"
proof (cases "strip s = []")
  case True
  then show ?thesis by simp
next
  case False
  let ?d = "dropWhile is_space (rev (lstrip s))"
  from False have d: "?d \<noteq> []" by (simp add: strip_def rstrip_def)
  then have "\<not> is_space (hd ?d)" by (rule hd_dropWhile)
  moreover have "last (strip s) = hd ?d"
    using d by (simp add: strip_def rstrip_def last_rev)
  ultimately show ?thesis by simp
qed

lemma cleaned_chars:
  assumes "c \<in> set (clean_markdown s)"
  shows "c \<noteq> 42 \<and> c \<noteq> 95 \<and> c \<noteq> 96 \<and> (is_linebreak c \<longrightarrow> c = 10)"
proof (cases "s = []")
  case True
  with assms show ?thesis by (simp add: clean_markdown_def)
next
  case False
  define x where "x = strip_markers (sub_links (sub_images (sub_fences s)))"
  define u where "u = join_lines (map sub_bullet (splitlines x))"
  have t: "clean_markdown s = strip (collapse_newlines u)"
    using False by (simp add: clean_markdown_def Let_def x_def u_def)
  from assms have "c \<in> set u"
    unfolding t using set_strip set_collapse_newlines by blast
  then have "c = 10 \<or> (\<exists>l\<in>set (splitlines x). c \<in> set (sub_bullet l))"
    using set_join_lines [of "map sub_bullet (splitlines x)"] unfolding u_def by auto
  then show ?thesis
  proof
    assume "c = 10"
    then show ?thesis by simp
  next
    assume "\<exists>l\<in>set (splitlines x). c \<in> set (sub_bullet l)"
    then obtain l where l: "l \<in> set (splitlines x)" and "c \<in> set (sub_bullet l)" by blast
    then have cl: "c \<in> set l" using set_sub_bullet by blast
    with splitlines_chars [OF l] have "c \<in> set x" and "\<not> is_linebreak c" by blast+
    moreover have "set x \<subseteq> set (sub_links (sub_images (sub_fences s))) - {42, 95, 96}"
      unfolding x_def by (rule set_strip_markers)
    ultimately show ?thesis by blast
  qed
qed

lemma cleaned_shape:
  "\<not> sublist [10, 10, 10] (clean_markdown s) \<and>
   (clean_markdown s = [] \<or> last (clean_markdown s) \<noteq> 10) \<and>
   strip (clean_markdown s) = clean_markdown s"
proof (cases "s = []")
  case True
  then show ?thesis by (simp add: clean_markdown_def strip_def lstrip_def rstrip_def)
next
  case False
  define u where
    "u = join_lines (map sub_bullet (splitlines (strip_markers (sub_links (sub_images (sub_fences s))))))"
  have t: "clean_markdown s = strip (collapse_newlines u)"
    using False by (simp add: clean_markdown_def Let_def u_def)
  have "\<not> sublist [10, 10, 10] (strip (collapse_newlines u))"
    using sublist_strip [of "collapse_newlines u"] collapse_newlines_no_run [of u]
      sublist_order.order_trans by blast
  moreover have "strip (collapse_newlines u) = [] \<or> last (strip (collapse_newlines u)) \<noteq> 10"
    using strip_last [of "collapse_newlines u"] by (auto simp: is_space_def)
  ultimately show ?thesis unfolding t by (simp add: strip_idem)
qed

subsection \<open>Cleaning a cleaned text\<close>

text \<open>
  C2, as amended. Cleaning a cleaned text changes nothing, provided the cleaned text
  has no \<open>]\<close> directly followed by \<open>(\<close> and none of its lines begins (after optional
  whitespace) with a bullet glyph followed by whitespace:
  \<open>clean_markdown (clean_markdown s) = clean_markdown s\<close> for every such \<open>s\<close>. The
  cleaner takes one bullet off a line and replaces the links it finds in one pass, so that
  a second bullet or a link that only the first pass completes is left for the next pass.
\<close>

theorem clean_markdown_idempotent:
  assumes "\<not> sublist [93, 40] (clean_markdown s)"
    and "list_all (\<lambda>l. match_bullet l = None) (splitlines (clean_markdown s))"
  shows "clean_markdown (clean_markdown s) = clean_markdown s"
proof (cases "clean_markdown s = []")
  case True
  then show ?thesis by (simp add: clean_markdown_def)
next
  case False
  define t where "t = clean_markdown s"
  have chars: "42 \<notin> set t" "95 \<notin> set t" "96 \<notin> set t" "\<forall>c\<in>set t. is_linebreak c \<longrightarrow> c = 10"
    unfolding t_def using cleaned_chars [of _ s] by blast+
  have shape: "\<not> sublist [10, 10, 10] t" "t = [] \<or> last t \<noteq> 10" "strip t = t"
    unfolding t_def using cleaned_shape [of s] by blast+
  have 1: "sub_fences t = t" using chars(3) by (rule sub_fences_absent)
  have 2: "sub_images t = t" using assms(1) unfolding t_def by (rule sub_images_absent)
  have 3: "sub_links t = t" using assms(1) unfolding t_def by (rule sub_links_absent)
  have 4: "strip_markers t = t" using chars(1-3) by (rule strip_markers_absent)
  have 5: "map sub_bullet (splitlines t) = splitlines t"
    using assms(2) unfolding t_def by (rule map_sub_bullet_id)
  have 6: "join_lines (splitlines t) = t" using chars(4) shape(2) by (rule join_splitlines)
  have 7: "collapse_newlines t = t" using shape(1) by (rule collapse_newlines_absent)
  from False have "clean_markdown t = t"
    unfolding t_def [symmetric] by (simp add: clean_markdown_def Let_def 1 2 3 4 5 6 7 shape(3))
  then show ?thesis unfolding t_def .
qed

theorem clean_markdown_idempotent_witness:
  "\<not> sublist [93, 40] (clean_markdown (ustr ''- **See** [notes](x) [1]'' @ [10, 10, 10] @ ustr ''_end_'')) \<and>
   list_all (\<lambda>l. match_bullet l = None)
     (splitlines (clean_markdown (ustr ''- **See** [notes](x) [1]'' @ [10, 10, 10] @ ustr ''_end_''))) \<and>
   clean_markdown (ustr ''- **See** [notes](x) [1]'' @ [10, 10, 10] @ ustr ''_end_'') =
     ustr ''See notes [1]'' @ [10, 10] @ ustr ''end'' \<and>
   clean_markdown (clean_markdown (ustr ''- **See** [notes](x) [1]'' @ [10, 10, 10] @ ustr ''_end_'')) =
     ustr ''See notes [1]'' @ [10, 10] @ ustr ''end''"
proof -
  have c: "clean_markdown (ustr ''- **See** [notes](x) [1]'' @ [10, 10, 10] @ ustr ''_end_'') =
     ustr ''See notes [1]'' @ [10, 10] @ ustr ''end''"
    by (simp add: eval_string eval_cleaner)
  have a: "\<not> sublist [93, 40] (clean_markdown (ustr ''- **See** [notes](x) [1]'' @ [10, 10, 10] @ ustr ''_end_''))"
    unfolding c by (simp add: ustr_def sublist_Cons_right)
  have b: "list_all (\<lambda>l. match_bullet l = None)
     (splitlines (clean_markdown (ustr ''- **See** [notes](x) [1]'' @ [10, 10, 10] @ ustr ''_end_'')))"
    unfolding c by (simp add: eval_string eval_cleaner)
  show ?thesis
    using a b c clean_markdown_idempotent [OF a b] by simp
qed

text \<open>
  Without the two conditions the cleaner is not idempotent: \<open>- - a\<close> is cleaned to
  \<open>- a\<close> and that to \<open>a\<close>; \<open>[[a](b)](c)\<close> is cleaned to \<open>[a](c)\<close> and that to \<open>a\<close>.
\<close>

theorem clean_markdown_idempotent_counterexample:
  "clean_markdown (clean_markdown (ustr ''- - a'')) \<noteq> clean_markdown (ustr ''- - a'') \<and>
   clean_markdown (clean_markdown (ustr ''[[a](b)](c)'')) \<noteq> clean_markdown (ustr ''[[a](b)](c)'')"
  by (simp add: eval_string eval_cleaner)

end
